theory Spec2Isabelle
  imports Main "HOL-Library.Monad_Syntax"
begin

section \<open>The toolkit's object tree, as pqObjectNaming.cxx reads it\<close>

text \<open>
  A \<open>QObject*\<close> is an address; the null pointer is \<open>None\<close>. The object tree belongs to
  the GUI toolkit and is only read here, so the toolkit is a record of the accessors that
  the file calls on it: \<open>QObject::parent\<close>, \<open>QObject::children\<close>,
  \<open>metaObject()->className()\<close>, \<open>QObject::objectName\<close>, the two casts
  \<open>qobject_cast<QWidget*>\<close> and \<open>qobject_cast<QApplication*>\<close> (as the tests
  \<open>isWidget\<close> and \<open>isApplication\<close>), \<open>QWidget::isVisible\<close>,
  \<open>QApplication::topLevelWidgets\<close>, \<open>QApplication::instance\<close>,
  \<open>QObject::findChildren\<close> (with the name argument, or \<open>None\<close> when it is left
  out) and the environment variable \<open>PQOBJECTNAMING_MATCH_LIMIT\<close> (\<open>None\<close> when
  it is not set).
\<close>

type_synonym obj = nat

record toolkit =
  parent :: "obj \<Rightarrow> obj option"
  children :: "obj \<Rightarrow> obj list"
  className :: "obj \<Rightarrow> string"
  objectName :: "obj \<Rightarrow> string"
  isWidget :: "obj \<Rightarrow> bool"
  isVisible :: "obj \<Rightarrow> bool"
  isApplication :: "obj \<Rightarrow> bool"
  topLevelWidgets :: "obj list"
  app_instance :: obj
  findChildren :: "obj \<Rightarrow> string option \<Rightarrow> obj list"
  PQOBJECTNAMING_MATCH_LIMIT :: "string option"

section \<open>QString operations used by the file\<close>

text \<open>\<open>QString::number\<close> of an \<open>int\<close>: the decimal digits, with a sign when negative.\<close>

definition digit_char :: "nat \<Rightarrow> char" where
  "digit_char d = ''0123456789'' ! d"

fun digits :: "nat \<Rightarrow> string" where
  "digits n = (if n < 10 then [digit_char n] else digits (n div 10) @ [digit_char (n mod 10)])"

declare digits.simps [simp del]

definition number :: "int \<Rightarrow> string" where
  "number i = (if i < 0 then CHR ''-'' # digits (nat (- i)) else digits (nat i))"

text \<open>\<open>result.replace("/", "|")\<close>.\<close>

definition replace_slash :: "string \<Rightarrow> string" where
  "replace_slash s = map (\<lambda>c. if c = CHR ''/'' then CHR ''|'' else c) s"

text \<open>
  \<open>Name.split("/")\<close>, which keeps empty parts: the result always has one part more than
  the string has separators.
\<close>

fun split_slash :: "string \<Rightarrow> string list" where
  "split_slash [] = [[]]"
| "split_slash (c # cs) =
     (if c = CHR ''/'' then [] # split_slash cs
      else (case split_slash cs of
              [] \<Rightarrow> [[c]]
            | part # parts \<Rightarrow> (c # part) # parts))"

section \<open>Names of single objects\<close>

text \<open>
  The counting loop of \<open>InternalGetNameAsUnnamed\<close> (lines 60 to 81) over the siblings
  that are still to be visited; the state is the pair
  \<open>(invisible_index, visible_index)\<close>. Reaching the object itself is the \<open>break\<close>.
\<close>

fun count_siblings :: "toolkit \<Rightarrow> obj \<Rightarrow> string \<Rightarrow> obj list \<Rightarrow> nat \<times> nat \<Rightarrow> nat \<times> nat" where
  "count_siblings tk Object type [] (invisible_index, visible_index) =
     (invisible_index, visible_index)"
| "count_siblings tk Object type (test # siblings) (invisible_index, visible_index) =
     (if test = Object then (invisible_index, visible_index)
      else if type = className tk test \<and> objectName tk test = [] then
        (if isWidget tk test \<and> isVisible tk test
         then count_siblings tk Object type siblings (invisible_index, Suc visible_index)
         else count_siblings tk Object type siblings (Suc invisible_index, visible_index))
      else count_siblings tk Object type siblings (invisible_index, visible_index))"

definition siblings_of :: "toolkit \<Rightarrow> obj \<Rightarrow> obj list" where
  "siblings_of tk Object =
     (case parent tk Object of
        Some p \<Rightarrow> children tk p
      | None \<Rightarrow> topLevelWidgets tk)"

definition InternalGetNameAsUnnamed :: "toolkit \<Rightarrow> obj \<Rightarrow> string" where
  "InternalGetNameAsUnnamed tk Object =
     (let siblings = siblings_of tk Object;
          type = className tk Object;
          (invisible_index, visible_index) = count_siblings tk Object type siblings (0, 0);
          (result, index) =
            (if isWidget tk Object then
               (if isVisible tk Object then (number 1, visible_index)
                else (number 0, invisible_index))
             else ([], invisible_index))
      in replace_slash (result @ type @ number (int index)))"

definition InternalGetName :: "toolkit \<Rightarrow> obj \<Rightarrow> string" where
  "InternalGetName tk Object =
     (let result = objectName tk Object;
          result = (if result = [] then InternalGetNameAsUnnamed tk Object else result);
          result = (if isApplication tk Object then result @ ''-app'' else result)
      in replace_slash result)"

section \<open>Full names\<close>

text \<open>
  \<open>pqObjectNaming::GetName\<close>. Each \<open>qCritical()\<close> followed by
  \<open>return QString()\<close> is a diagnostic value; the loop over the ancestors follows
  \<open>parent\<close> pointers, so it is a partial function: \<open>None\<close> is a walk that never
  reaches an object without parent.
\<close>

datatype diagnostic =
    Unnamed_object obj
  | Incompletely_named string obj obj
  | Not_top_level obj obj string

partial_function (option)
  GetName_loop :: "toolkit \<Rightarrow> obj \<Rightarrow> obj option \<Rightarrow> string \<Rightarrow> (diagnostic + string) option"
where
  "GetName_loop tk Object p name =
     (case p of
        None \<Rightarrow> Some (Inr name)
      | Some q \<Rightarrow>
          (if InternalGetName tk q = [] then Some (Inl (Incompletely_named name Object q))
           else if parent tk q = None \<and> \<not> (isWidget tk q \<and> q \<in> set (topLevelWidgets tk))
           then Some (Inl (Not_top_level Object q (InternalGetName tk q @ ''/'' @ name)))
           else GetName_loop tk Object (parent tk q) (InternalGetName tk q @ ''/'' @ name)))"

definition GetName_log :: "toolkit \<Rightarrow> obj \<Rightarrow> (diagnostic + string) option" where
  "GetName_log tk Object =
     (if InternalGetName tk Object = [] then Some (Inl (Unnamed_object Object))
      else GetName_loop tk Object (parent tk Object) (InternalGetName tk Object))"

text \<open>The returned \<open>QString\<close>: empty after a diagnostic.\<close>

definition GetName :: "toolkit \<Rightarrow> obj \<Rightarrow> string option" where
  "GetName tk Object =
     map_option (\<lambda>r. case r of Inl _ \<Rightarrow> [] | Inr name \<Rightarrow> name) (GetName_log tk Object)"

section \<open>Resolution of a name\<close>

text \<open>The loop over the top-level widgets (lines 176 to 188).\<close>

fun find_top_level :: "toolkit \<Rightarrow> string \<Rightarrow> obj list \<Rightarrow> obj option" where
  "find_top_level tk first [] = None"
| "find_top_level tk first (object # widgets) =
     (if InternalGetName tk object = first \<or> InternalGetNameAsUnnamed tk object = first
      then Some object
      else find_top_level tk first widgets)"

text \<open>
  The loop over the children (lines 196 to 216), from index \<open>k\<close>; \<open>segment\<close> is
  the source's local \<open>objectName\<close>. The index never passes \<open>children.size()\<close>, so the loop test
  \<open>k != children.size()\<close> is \<open>k < length children\<close>. After the last child has failed
  to match a name that starts with \<open>0\<close>, the source sets \<open>objectName[0] = '1'\<close> and
  \<open>k = 0\<close>, and the loop's \<open>++k\<close> then makes the next index \<open>1\<close>.
\<close>

function scan_children :: "toolkit \<Rightarrow> obj list \<Rightarrow> nat \<Rightarrow> string \<Rightarrow> obj option" where
  "scan_children tk cs k segment =
     (if length cs \<le> k then None
      else if InternalGetName tk (cs ! k) = segment
              \<or> InternalGetNameAsUnnamed tk (cs ! k) = segment
      then Some (cs ! k)
      else if k = length cs - 1 \<and> segment \<noteq> [] \<and> hd segment = CHR ''0''
      then scan_children tk cs (Suc 0) (CHR ''1'' # tl segment)
      else scan_children tk cs (Suc k) segment)"
  by pat_completeness auto
termination
  by (relation "measures [\<lambda>(tk, cs, k, n). if n \<noteq> [] \<and> hd n = CHR ''0'' then 1 else 0,
                          \<lambda>(tk, cs, k, n). length cs - k]") auto

declare scan_children.simps [simp del]

text \<open>
  The loop over the path segments after the first (lines 190 to 217); the state is
  \<open>(result, lastObject)\<close>.
\<close>

fun resolve_segments ::
  "toolkit \<Rightarrow> string list \<Rightarrow> obj option \<times> obj option \<Rightarrow> obj option \<times> obj option" where
  "resolve_segments tk [] (result, lastObject) = (result, lastObject)"
| "resolve_segments tk (name # names) (result, lastObject) =
     (case scan_children tk (case result of Some r \<Rightarrow> children tk r | None \<Rightarrow> []) 0 name of
        Some child \<Rightarrow> resolve_segments tk names (Some child, Some child)
      | None \<Rightarrow> resolve_segments tk names (None, lastObject))"

section \<open>The diagnostic of a failed resolution\<close>

text \<open>
  \<open>QString::toInt\<close> belongs to the toolkit. Its documentation: the string converted to an
  \<open>int\<close> in base 10, leading and trailing whitespace ignored, and 0 when the conversion
  fails (which includes a value outside the range of \<open>int\<close>).
\<close>

definition is_space :: "char \<Rightarrow> bool" where
  "is_space c = (c = CHR '' '' \<or> (9 \<le> (of_char c :: nat) \<and> (of_char c :: nat) \<le> 13))"

definition trimmed :: "string \<Rightarrow> string" where
  "trimmed s = rev (dropWhile is_space (rev (dropWhile is_space s)))"

fun decimal_value :: "string \<Rightarrow> nat \<Rightarrow> nat option" where
  "decimal_value [] acc = Some acc"
| "decimal_value (c # cs) acc =
     (if 48 \<le> (of_char c :: nat) \<and> (of_char c :: nat) \<le> 57
      then decimal_value cs (10 * acc + (of_char c - 48))
      else None)"

definition toInt :: "string \<Rightarrow> int" where
  "toInt s =
     (let t = trimmed s;
          (negative, body) =
            (case t of
               [] \<Rightarrow> (False, [])
             | c # cs \<Rightarrow> if c = CHR ''-'' then (True, cs)
                         else if c = CHR ''+'' then (False, cs) else (False, t))
      in if body = [] then 0
         else (case decimal_value body 0 of
                 None \<Rightarrow> 0
               | Some v \<Rightarrow>
                   (let i = (if negative then - int v else int v)
                    in if - (2 ^ 31) \<le> i \<and> i < 2 ^ 31 then i else 0)))"

text \<open>
  \<open>qgetenv\<close> gives an empty byte array for a variable that is not set; lines 232 and
  233 compute the limit.
\<close>

definition qgetenv_match_limit :: "toolkit \<Rightarrow> string" where
  "qgetenv_match_limit tk = (case PQOBJECTNAMING_MATCH_LIMIT tk of None \<Rightarrow> [] | Some v \<Rightarrow> v)"

definition matchLimit :: "toolkit \<Rightarrow> int" where
  "matchLimit tk =
     (let matchLimitEnv = qgetenv_match_limit tk
      in if matchLimitEnv = [] then 20 else toInt matchLimitEnv)"

definition nl :: string where
  "nl = [CHR 0x0A]"

definition backquote :: string where
  "backquote = [CHR 0x60]"

text \<open>The lines that are streamed into \<open>ErrorMessage\<close>.\<close>

definition couldnt_find :: "string \<Rightarrow> string" where
  "couldnt_find Name =
     nl @ ''Couldn'' @ [CHR 0x27] @ ''t find object  '' @ backquote @ Name @ backquote @ nl"

definition found_up_to :: "string \<Rightarrow> string" where
  "found_up_to name = ''Found up to           '' @ backquote @ name @ backquote @ nl"

definition possible_match_line :: "string \<Rightarrow> string" where
  "possible_match_line name = ''    Possible match:   '' @ backquote @ name @ backquote @ nl"

definition available_widget_line :: "string \<Rightarrow> string" where
  "available_widget_line name = ''    Available widget: '' @ backquote @ name @ backquote @ nl"

definition set_limit_hint :: string where
  "set_limit_hint =
     ''    Set PQOBJECTNAMING_MATCH_LIMIT environment var to a +'' @ [CHR 0x27]
     @ ''ve number to limit entries (or 0 for unlimited).'' @ nl"

text \<open>
  The two listing loops (lines 239 to 243 and 253 to 256), over the matches from index
  \<open>cc\<close> on. The first one also sets \<open>foundMatch\<close>.
\<close>

fun possible_matches ::
  "toolkit \<Rightarrow> int \<Rightarrow> obj list \<Rightarrow> nat \<Rightarrow> string \<times> bool \<Rightarrow> (string \<times> bool) option" where
  "possible_matches tk limit [] cc (stream, foundMatch) = Some (stream, foundMatch)"
| "possible_matches tk limit (m # matches) cc (stream, foundMatch) =
     (if limit \<le> 0 \<or> int cc < limit then
        do {
          name \<leftarrow> GetName tk m;
          possible_matches tk limit matches (Suc cc) (stream @ possible_match_line name, True)
        }
      else Some (stream, foundMatch))"

fun available_widgets :: "toolkit \<Rightarrow> int \<Rightarrow> obj list \<Rightarrow> nat \<Rightarrow> string \<Rightarrow> string option" where
  "available_widgets tk limit [] cc stream = Some stream"
| "available_widgets tk limit (m # matches) cc stream =
     (if limit \<le> 0 \<or> int cc < limit then
        do {
          name \<leftarrow> GetName tk m;
          available_widgets tk limit matches (Suc cc) (stream @ available_widget_line name)
        }
      else Some stream)"

text \<open>
  The lines written when the list was cut (lines 244 to 249 and 257 to 262), for a list
  of \<open>n\<close> matches.
\<close>

definition and_more :: "string \<Rightarrow> int \<Rightarrow> nat \<Rightarrow> string" where
  "and_more label limit n =
     (if limit > 0 \<and> int n > limit
      then label @ ''.... (and '' @ number (int n - limit) @ '' more!)'' @ nl @ set_limit_hint
      else [])"

text \<open>Lines 222 to 264: the text that replaces \<open>ErrorMessage\<close>.\<close>

definition failure_message :: "toolkit \<Rightarrow> string \<Rightarrow> string list \<Rightarrow> obj option \<Rightarrow> string option" where
  "failure_message tk Name names lastObject =
     (let stream = couldnt_find Name
      in case lastObject of
           None \<Rightarrow> Some stream
         | Some l \<Rightarrow>
             do {
               found \<leftarrow> GetName tk l;
               let stream = stream @ found_up_to found;
               let limit = matchLimit tk;
               let matches = findChildren tk l (Some (last names));
               (stream, foundMatch) \<leftarrow> possible_matches tk limit matches 0 (stream, False);
               let stream = stream @ and_more ''    Possible match: '' limit (length matches);
               if \<not> foundMatch then
                 do {
                   let matches = findChildren tk l None;
                   stream \<leftarrow> available_widgets tk limit matches 0 stream;
                   Some (stream @ and_more ''    Available widget: '' limit (length matches))
                 }
               else Some stream
             })"

text \<open>
  \<open>pqObjectNaming::GetObject\<close>, with the file's \<open>ErrorMessage\<close> passed in and
  returned. \<open>names[0]\<close> exists because \<open>split\<close> never gives an empty list.
\<close>

definition GetObject :: "toolkit \<Rightarrow> string \<Rightarrow> string \<Rightarrow> (obj option \<times> string) option" where
  "GetObject tk Name ErrorMessage =
     (if Name = [] then Some (None, ErrorMessage)
      else if InternalGetName tk (app_instance tk) = Name
      then Some (Some (app_instance tk), ErrorMessage)
      else
        (let names = split_slash Name;
             top = find_top_level tk (hd names) (topLevelWidgets tk);
             (result, lastObject) = resolve_segments tk (tl names) (top, top)
         in case result of
              Some r \<Rightarrow> Some (Some r, ErrorMessage)
            | None \<Rightarrow>
                do {
                  message \<leftarrow> failure_message tk Name names lastObject;
                  Some (None, message)
                }))"

definition lastErrorMessage :: "string \<Rightarrow> string" where
  "lastErrorMessage ErrorMessage = ErrorMessage"

section \<open>Dump of the hierarchy\<close>

text \<open>
  \<open>DumpHierarchy(QObject&, QStringList&)\<close> calls itself from a loop over the
  children, and \<open>DumpHierarchy(QStringList&)\<close> calls it from a loop over the top-level
  widgets. One partial function runs both: \<open>Visit object\<close> is a call on an object,
  \<open>Each objects\<close> is a loop over the objects still to come. \<open>None\<close> is a run
  that never returns.
\<close>

datatype dump_task = Visit obj | Each "obj list"

partial_function (option)
  DumpHierarchy_run :: "toolkit \<Rightarrow> dump_task \<Rightarrow> string list \<Rightarrow> string list option"
where
  "DumpHierarchy_run tk task results =
     (case task of
        Visit object \<Rightarrow>
          do {
            name \<leftarrow> GetName tk object;
            DumpHierarchy_run tk (Each (children tk object)) (results @ [name])
          }
      | Each [] \<Rightarrow> Some results
      | Each (object # objects) \<Rightarrow>
          do {
            results \<leftarrow> DumpHierarchy_run tk (Visit object) results;
            DumpHierarchy_run tk (Each objects) results
          })"

definition DumpHierarchy_object :: "toolkit \<Rightarrow> obj \<Rightarrow> string list \<Rightarrow> string list option" where
  "DumpHierarchy_object tk object results = DumpHierarchy_run tk (Visit object) results"

definition DumpHierarchy :: "toolkit \<Rightarrow> string list \<Rightarrow> string list option" where
  "DumpHierarchy tk results = DumpHierarchy_run tk (Each (topLevelWidgets tk)) results"

section \<open>Notions of the specification\<close>

text \<open>
  The visibility class of an object: a visible widget, or anything else (an invisible
  widget or an object that is no widget).
\<close>

definition visible_widget :: "toolkit \<Rightarrow> obj \<Rightarrow> bool" where
  "visible_widget tk x = (isWidget tk x \<and> isVisible tk x)"

text \<open>
  The ordinal in the specification's words: the number of siblings before the object that
  have its type, no name and its visibility class.
\<close>

definition spec_ordinal :: "toolkit \<Rightarrow> obj \<Rightarrow> nat" where
  "spec_ordinal tk x =
     length (filter (\<lambda>t. className tk t = className tk x \<and> objectName tk t = []
                          \<and> visible_widget tk t = visible_widget tk x)
               (takeWhile (\<lambda>t. t \<noteq> x) (siblings_of tk x)))"

text \<open>
  Escaping in the specification's words: every \<open>/\<close> of a name is replaced by
  \<open>|\<close>, every other character stays. The synthesized name before escaping: the digit
  of a widget (none for an object that is no widget), the type tag and the ordinal.
\<close>

fun spec_escape :: "string \<Rightarrow> string" where
  "spec_escape [] = []"
| "spec_escape (c # cs) = (if c = CHR ''/'' then CHR ''|'' else c) # spec_escape cs"

definition spec_synthesized :: "toolkit \<Rightarrow> obj \<Rightarrow> string" where
  "spec_synthesized tk x =
     (if isWidget tk x then (if isVisible tk x then ''1'' else ''0'') else [])
     @ className tk x @ number (int (spec_ordinal tk x))"

text \<open>The unnamed children of a parent with a given type and visibility class.\<close>

definition unnamed_group :: "toolkit \<Rightarrow> obj \<Rightarrow> string \<Rightarrow> bool \<Rightarrow> obj list" where
  "unnamed_group tk p type v =
     filter (\<lambda>c. className tk c = type \<and> objectName tk c = [] \<and> visible_widget tk c = v)
       (children tk p)"

text \<open>
  \<open>ancestors_are tk x ps\<close>: the \<open>parent\<close> pointers lead from \<open>x\<close> through
  \<open>ps\<close> (nearest first) to an object without parent.
\<close>

fun ancestors_are :: "toolkit \<Rightarrow> obj \<Rightarrow> obj list \<Rightarrow> bool" where
  "ancestors_are tk x [] = (parent tk x = None)"
| "ancestors_are tk x (p # ps) = (parent tk x = Some p \<and> ancestors_are tk p ps)"

text \<open>A registered top-level window, as line 146 tests it.\<close>

definition registered_top_level :: "toolkit \<Rightarrow> obj \<Rightarrow> bool" where
  "registered_top_level tk p = (isWidget tk p \<and> p \<in> set (topLevelWidgets tk))"

text \<open>
  The three failures of the specification, for an object \<open>x\<close> with ancestors
  \<open>ps\<close>: the object has no derived name, an ancestor has none, or the top-most
  ancestor is not a registered top-level window.
\<close>

definition spec_failure :: "toolkit \<Rightarrow> obj \<Rightarrow> obj list \<Rightarrow> bool" where
  "spec_failure tk x ps =
     (InternalGetName tk x = [] \<or> (\<exists>q \<in> set ps. InternalGetName tk q = [])
      \<or> (ps \<noteq> [] \<and> \<not> registered_top_level tk (last ps)))"



text \<open>
  The objects below one object as a finite tree, and the order of the specification's
  traversal: an object before its children, the children in sibling order.
  \<open>shaped tk t\<close> says that the tree \<open>t\<close> has, at every node, the children that the
  toolkit reports for it.
\<close>

datatype otree = Node (root: obj) (subtrees: "otree list")

fun preorder :: "otree \<Rightarrow> obj list" where
  "preorder (Node x ts) = x # concat (map preorder ts)"

fun shaped :: "toolkit \<Rightarrow> otree \<Rightarrow> bool" where
  "shaped tk (Node x ts) = (map root ts = children tk x \<and> (\<forall>t \<in> set ts. shaped tk t))"

text \<open>The segments joined with the path delimiter.\<close>

fun join_slash :: "string list \<Rightarrow> string" where
  "join_slash [] = []"
| "join_slash [s] = s"
| "join_slash (s # t # ss) = s @ ''/'' @ join_slash (t # ss)"

text \<open>A segment matches an object by its name or by its name as if unnamed.\<close>

definition segment_matches :: "toolkit \<Rightarrow> string \<Rightarrow> obj \<Rightarrow> bool" where
  "segment_matches tk segment c =
     (InternalGetName tk c = segment \<or> InternalGetNameAsUnnamed tk c = segment)"

text \<open>
  Resolution takes the first match. \<open>first_matches tk p cs\<close>: going down from
  \<open>p\<close> through the objects \<open>cs\<close>, each object is the first child of the one before
  whose name, or name as if unnamed, equals its own derived name.
  \<open>chain_resolves tk x ps\<close>: the root of the chain is a registered top-level window and
  the first such match among the top-level widgets, every object below is the first match
  among its siblings, and an object without parent is not named like the application
  object.
\<close>

fun first_matches :: "toolkit \<Rightarrow> obj \<Rightarrow> obj list \<Rightarrow> bool" where
  "first_matches tk p [] = True"
| "first_matches tk p (c # cs) =
     (find (segment_matches tk (InternalGetName tk c)) (children tk p) = Some c
      \<and> first_matches tk c cs)"

definition chain_resolves :: "toolkit \<Rightarrow> obj \<Rightarrow> obj list \<Rightarrow> bool" where
  "chain_resolves tk x ps =
     (case rev ps @ [x] of
        [] \<Rightarrow> False
      | r # rest \<Rightarrow>
          registered_top_level tk r
          \<and> find (segment_matches tk (InternalGetName tk r)) (topLevelWidgets tk) = Some r
          \<and> first_matches tk r rest
          \<and> (if rest = [] then InternalGetName tk (app_instance tk) \<noteq> InternalGetName tk r
              else True))"

section \<open>Example object trees\<close>

text \<open>
  Object 0 is the application object; object 10 is a visible top-level window named
  \<open>main\<close>. The examples below add children to the window.
\<close>

definition window_tk :: toolkit where
  "window_tk =
     \<lparr> parent = (\<lambda>x. None),
       children = (\<lambda>x. []),
       className = (\<lambda>x. if x = 0 then ''QApplication'' else ''QMainWindow''),
       objectName = (\<lambda>x. if x = 10 then ''main'' else []),
       isWidget = (\<lambda>x. x \<noteq> 0),
       isVisible = (\<lambda>x. x = 10),
       isApplication = (\<lambda>x. x = 0),
       topLevelWidgets = [10],
       app_instance = 0,
       findChildren = (\<lambda>x n. []),
       PQOBJECTNAMING_MATCH_LIMIT = None \<rparr>"

text \<open>Three unnamed, invisible buttons 11, 12 and 13 under the window.\<close>

definition buttons_tk :: toolkit where
  "buttons_tk =
     window_tk
     \<lparr> parent := (\<lambda>x. if x \<in> {11, 12, 13} then Some 10 else None),
       children := (\<lambda>x. if x = 10 then [11, 12, 13] else []),
       className := (\<lambda>x. if x = 0 then ''QApplication''
                          else if x = 10 then ''QMainWindow'' else ''Button'') \<rparr>"

text \<open>An unnamed object 11 under the window that is no widget (a \<open>QAction\<close>).\<close>

definition action_tk :: toolkit where
  "action_tk =
     window_tk
     \<lparr> parent := (\<lambda>x. if x = 11 then Some 10 else None),
       children := (\<lambda>x. if x = 10 then [11] else []),
       className := (\<lambda>x. if x = 0 then ''QApplication''
                          else if x = 10 then ''QMainWindow'' else ''QAction''),
       isWidget := (\<lambda>x. x = 10) \<rparr>"

text \<open>
  A child 11 of the window whose explicit name contains the path delimiter, and an unnamed
  child 12 whose type tag contains it.
\<close>

definition slash_tk :: toolkit where
  "slash_tk =
     window_tk
     \<lparr> parent := (\<lambda>x. if x = 11 \<or> x = 12 then Some 10 else None),
       children := (\<lambda>x. if x = 10 then [11, 12] else []),
       className := (\<lambda>x. if x = 0 then ''QApplication''
                          else if x = 12 then ''Ui/Panel'' else ''QMainWindow''),
       objectName := (\<lambda>x. if x = 10 then ''main'' else if x = 11 then ''a/b'' else []) \<rparr>"

text \<open>
  An object 21 named \<open>leaf\<close> whose parent 20 has no parent and is not among the
  top-level widgets.
\<close>

definition orphan_tk :: toolkit where
  "orphan_tk =
     window_tk
     \<lparr> parent := (\<lambda>x. if x = 21 then Some 20 else None),
       children := (\<lambda>x. if x = 20 then [21] else []),
       objectName := (\<lambda>x. if x = 10 then ''main'' else if x = 21 then ''leaf'' else []) \<rparr>"


text \<open>
  The only child 11 of the window is an unnamed \<open>QWidget\<close> that is visible, so its
  name is \<open>1QWidget0\<close>.
\<close>

definition only_child_tk :: toolkit where
  "only_child_tk =
     window_tk
     \<lparr> parent := (\<lambda>x. if x = 11 then Some 10 else None),
       children := (\<lambda>x. if x = 10 then [11] else []),
       className := (\<lambda>x. if x = 0 then ''QApplication''
                          else if x = 10 then ''QMainWindow'' else ''QWidget''),
       isVisible := (\<lambda>x. x = 10 \<or> x = 11) \<rparr>"

text \<open>
  The same visible unnamed \<open>QWidget\<close>, now object 12, is the second child; the first
  child 11 is a label named \<open>first\<close>.
\<close>

definition second_child_tk :: toolkit where
  "second_child_tk =
     window_tk
     \<lparr> parent := (\<lambda>x. if x = 11 \<or> x = 12 then Some 10 else None),
       children := (\<lambda>x. if x = 10 then [11, 12] else []),
       className := (\<lambda>x. if x = 0 then ''QApplication''
                          else if x = 10 then ''QMainWindow''
                          else if x = 11 then ''QLabel'' else ''QWidget''),
       objectName := (\<lambda>x. if x = 10 then ''main'' else if x = 11 then ''first'' else []),
       isVisible := (\<lambda>x. x = 10 \<or> x = 12) \<rparr>"

text \<open>Two children 11 and 12 of the window, both named \<open>btn\<close>.\<close>

definition twins_tk :: toolkit where
  "twins_tk =
     window_tk
     \<lparr> parent := (\<lambda>x. if x = 11 \<or> x = 12 then Some 10 else None),
       children := (\<lambda>x. if x = 10 then [11, 12] else []),
       objectName := (\<lambda>x. if x = 10 then ''main''
                           else if x = 11 \<or> x = 12 then ''btn'' else []) \<rparr>"

text \<open>Two children 11 and 12 of the window, named \<open>left\<close> and \<open>right\<close>.\<close>

definition pair_tk :: toolkit where
  "pair_tk =
     window_tk
     \<lparr> parent := (\<lambda>x. if x = 11 \<or> x = 12 then Some 10 else None),
       children := (\<lambda>x. if x = 10 then [11, 12] else []),
       objectName := (\<lambda>x. if x = 10 then ''main'' else if x = 11 then ''left''
                           else if x = 12 then ''right'' else []) \<rparr>"

section \<open>Facts about the string operations\<close>

text \<open>The definitions that evaluate the name of a single object.\<close>

lemmas name_defs = InternalGetName_def InternalGetNameAsUnnamed_def siblings_of_def number_def
  digits.simps digit_char_def replace_slash_def

lemma digits_not_empty: "digits n \<noteq> []"
  by (subst digits.simps) simp

lemma number_not_empty: "number i \<noteq> []"
  by (simp add: number_def digits_not_empty)

lemma digit_char_no_slash: "d < 10 \<Longrightarrow> digit_char d \<noteq> CHR ''/''"
proof -
  assume "d < 10"
  then have "d \<in> {0, 1, 2, 3, 4, 5, 6, 7, 8, 9}" by auto
  then show ?thesis by (auto simp: digit_char_def)
qed

lemma replace_slash_Nil: "replace_slash [] = []"
  by (simp add: replace_slash_def)

lemma replace_slash_Cons:
  "replace_slash (c # s) = (if c = CHR ''/'' then CHR ''|'' else c) # replace_slash s"
  by (simp add: replace_slash_def)

lemma digits_no_slash: "CHR ''/'' \<notin> set (digits n)"
proof (induction n rule: digits.induct)
  case (1 n)
  show ?case
  proof (cases "n < 10")
    case True
    then show ?thesis using digit_char_no_slash [of n] by (subst digits.simps) auto
  next
    case False
    then have "CHR ''/'' \<notin> set (digits (n div 10))" using 1 by simp
    moreover have "digit_char (n mod 10) \<noteq> CHR ''/''" by (rule digit_char_no_slash) simp
    ultimately show ?thesis using False by (subst digits.simps) auto
  qed
qed

lemma number_no_slash: "CHR ''/'' \<notin> set (number i)"
  by (simp add: number_def digits_no_slash)

lemma replace_slash_no_slash: "CHR ''/'' \<notin> set (replace_slash s)"
  by (auto simp: replace_slash_def)

lemma replace_slash_id: "CHR ''/'' \<notin> set s \<Longrightarrow> replace_slash s = s"
  by (induction s) (auto simp: replace_slash_def)

lemma replace_slash_append: "replace_slash (s @ t) = replace_slash s @ replace_slash t"
  by (simp add: replace_slash_def)

lemma replace_slash_idem: "replace_slash (replace_slash s) = replace_slash s"
  by (simp add: replace_slash_id replace_slash_no_slash)

lemma count_siblings_eq:
  "count_siblings tk x T sibs (i, v) =
     (i + length (filter (\<lambda>t. T = className tk t \<and> objectName tk t = [] \<and> \<not> visible_widget tk t)
                   (takeWhile (\<lambda>t. t \<noteq> x) sibs)),
      v + length (filter (\<lambda>t. T = className tk t \<and> objectName tk t = [] \<and> visible_widget tk t)
                   (takeWhile (\<lambda>t. t \<noteq> x) sibs)))"
proof (induction sibs arbitrary: i v)
  case Nil
  then show ?case by simp
next
  case (Cons a sibs)
  show ?case
  proof (cases "a = x")
    case True
    then show ?thesis by simp
  next
    case False
    note ne = this
    show ?thesis
    proof (cases "T = className tk a \<and> objectName tk a = []")
      case False
      then show ?thesis using ne Cons.IH [of i v] by auto
    next
      case True
      show ?thesis
      proof (cases "visible_widget tk a")
        case True
        then show ?thesis using ne \<open>T = className tk a \<and> objectName tk a = []\<close> Cons.IH [of i "Suc v"]
          by (simp add: visible_widget_def)
      next
        case False
        then show ?thesis using ne \<open>T = className tk a \<and> objectName tk a = []\<close> Cons.IH [of "Suc i" v]
          by (auto simp add: visible_widget_def)
      qed
    qed
  qed
qed

lemma number_1: "number 1 = ''1''" by (simp add: number_def digits.simps digit_char_def)
lemma number_0: "number 0 = ''0''" by (simp add: number_def digits.simps digit_char_def)

lemma unnamed_form_aux:
  "InternalGetNameAsUnnamed tk x =
     (if isWidget tk x then (if isVisible tk x then ''1'' else ''0'') else [])
     @ replace_slash (className tk x) @ number (int (spec_ordinal tk x))"
proof -
  have eq: "(\<lambda>t. className tk x = className tk t \<and> objectName tk t = [] \<and> P t)
          = (\<lambda>t. className tk t = className tk x \<and> objectName tk t = [] \<and> P t)" for P
    by auto
  show ?thesis
    by (auto simp: InternalGetNameAsUnnamed_def Let_def count_siblings_eq spec_ordinal_def
        visible_widget_def replace_slash_append number_1 number_0 eq
        replace_slash_id [OF number_no_slash] replace_slash_Nil replace_slash_Cons
        intro!: arg_cong [where f = length] filter_cong)
qed

lemma filter_index_takeWhile:
  "distinct cs \<Longrightarrow> i < length (filter P cs) \<Longrightarrow>
   length (filter P (takeWhile (\<lambda>t. t \<noteq> filter P cs ! i) cs)) = i"
proof (induction cs arbitrary: i)
  case Nil
  then show ?case by simp
next
  case (Cons c cs)
  show ?case
  proof (cases "P c")
    case False
    from Cons.prems False have i: "i < length (filter P cs)" by simp
    then have "filter P cs ! i \<in> set (filter P cs)" by (rule nth_mem)
    then have "filter P cs ! i \<noteq> c" using Cons.prems(1) by auto
    then show ?thesis using Cons False i by simp
  next
    case True
    show ?thesis
    proof (cases i)
      case 0
      then show ?thesis using True by simp
    next
      case (Suc j)
      with Cons.prems True have j: "j < length (filter P cs)" by simp
      then have "filter P cs ! j \<in> set (filter P cs)" by (rule nth_mem)
      then have "filter P cs ! j \<noteq> c" using Cons.prems(1) by auto
      then show ?thesis using Cons True j Suc by simp
    qed
  qed
qed

section \<open>Synthesized names\<close>

text \<open>
  C4. The synthesized name of an object is a visibility digit, the type tag (with
  every \<open>/\<close> replaced by \<open>|\<close>) and the index. The digit is \<open>1\<close> for a
  visible widget and \<open>0\<close> for an invisible widget; an object that is no widget gets
  no digit at all. The index is the number of preceding siblings of the same type, without
  name and of the same visibility class, where the objects that are no widgets share their
  class with the invisible widgets.
\<close>

theorem synthesized_name_form:
  "InternalGetNameAsUnnamed tk x =
     (if isWidget tk x then (if isVisible tk x then ''1'' else ''0'') else [])
     @ replace_slash (className tk x) @ number (int (spec_ordinal tk x))"
proof -
  have eq: "(\<lambda>t. className tk x = className tk t \<and> objectName tk t = [] \<and> P t)
          = (\<lambda>t. className tk t = className tk x \<and> objectName tk t = [] \<and> P t)" for P
    by auto
  show ?thesis
    by (auto simp: InternalGetNameAsUnnamed_def Let_def count_siblings_eq spec_ordinal_def
        visible_widget_def replace_slash_append number_1 number_0 eq
        replace_slash_id [OF number_no_slash] replace_slash_Nil replace_slash_Cons
        intro!: arg_cong [where f = length] filter_cong)
qed


text \<open>
  Not every unnamed object gets a leading digit: the unnamed \<open>QAction\<close> of
  \<open>action_tk\<close> is named \<open>QAction0\<close>, not \<open>0QAction0\<close>.
\<close>

theorem synthesized_name_no_digit_counterexample:
  "objectName action_tk 11 = [] \<and> \<not> visible_widget action_tk 11
   \<and> InternalGetNameAsUnnamed action_tk 11 = ''QAction0''
   \<and> InternalGetNameAsUnnamed action_tk 11
       \<noteq> ''0'' @ className action_tk 11 @ number (int (spec_ordinal action_tk 11))"
  by (simp add: InternalGetNameAsUnnamed_def action_tk_def window_tk_def siblings_of_def
      visible_widget_def spec_ordinal_def number_def digits.simps digit_char_def
      replace_slash_def)

text \<open>
  C2. Under a parent whose children list has no duplicates and whose children point back to
  it, the unnamed children of one type and one visibility class get the indices
  0, 1, ..., N-1 in sibling order: the \<open>i\<close>-th of them is named with index \<open>i\<close>.
\<close>

theorem unnamed_siblings_ordinals:
  assumes "distinct (children tk p)"
    and "\<forall>c \<in> set (children tk p). parent tk c = Some p"
    and "i < length (unnamed_group tk p type v)"
  shows "InternalGetNameAsUnnamed tk (unnamed_group tk p type v ! i) =
           (if isWidget tk (unnamed_group tk p type v ! i) then (if v then ''1'' else ''0'') else [])
           @ replace_slash type @ number (int i)"
proof -
  let ?P = "\<lambda>c. className tk c = type \<and> objectName tk c = [] \<and> visible_widget tk c = v"
  let ?x = "unnamed_group tk p type v ! i"
  have mem: "?x \<in> set (unnamed_group tk p type v)" using assms(3) by (rule nth_mem)
  then have props: "className tk ?x = type" "visible_widget tk ?x = v" "?x \<in> set (children tk p)"
    by (auto simp: unnamed_group_def)
  then have sib: "siblings_of tk ?x = children tk p"
    using assms(2) by (simp add: siblings_of_def)
  have "spec_ordinal tk ?x = length (filter ?P (takeWhile (\<lambda>t. t \<noteq> ?x) (children tk p)))"
    by (simp add: spec_ordinal_def sib props)
  also have "\<dots> = i"
    using filter_index_takeWhile [OF assms(1), of i ?P] assms(3) by (simp add: unnamed_group_def)
  finally have "spec_ordinal tk ?x = i" .
  moreover have "isWidget tk ?x \<Longrightarrow> isVisible tk ?x = v"
    using props(2) by (simp add: visible_widget_def)
  ultimately show ?thesis
    by (simp add: unnamed_form_aux props)
qed


theorem unnamed_siblings_ordinals_witness:
  "distinct (children buttons_tk 10)
   \<and> map (parent buttons_tk) (children buttons_tk 10) = [Some 10, Some 10, Some 10]
   \<and> length (unnamed_group buttons_tk 10 ''Button'' False) = 3
   \<and> map (InternalGetNameAsUnnamed buttons_tk) (unnamed_group buttons_tk 10 ''Button'' False)
       = [''0Button0'', ''0Button1'', ''0Button2'']"
proof -
  have d: "distinct (children buttons_tk 10)"
    by (simp add: buttons_tk_def window_tk_def)
  have p: "\<forall>c \<in> set (children buttons_tk 10). parent buttons_tk c = Some 10"
    by (simp add: buttons_tk_def window_tk_def)
  have g: "unnamed_group buttons_tk 10 ''Button'' False = [11, 12, 13]"
    by (simp add: unnamed_group_def visible_widget_def buttons_tk_def window_tk_def)
  have w: "isWidget buttons_tk 11" "isWidget buttons_tk 12" "isWidget buttons_tk 13"
    by (simp_all add: buttons_tk_def window_tk_def)
  have n: "number 0 = ''0''" "number 1 = ''1''" "number 2 = ''2''"
    by (simp_all add: number_def digits.simps digit_char_def)
  have r: "replace_slash ''Button'' = ''Button''"
    by (simp add: replace_slash_def)
  have "InternalGetNameAsUnnamed buttons_tk 11 = ''0Button0''"
    using unnamed_siblings_ordinals [OF d p, of 0 "''Button''" False] 
    by (simp add: g w n r)
  moreover have "InternalGetNameAsUnnamed buttons_tk 12 = ''0Button1''"
    using unnamed_siblings_ordinals [OF d p, of 1 "''Button''" False] 
    by (simp add: g w n r)
  moreover have "InternalGetNameAsUnnamed buttons_tk 13 = ''0Button2''"
    using unnamed_siblings_ordinals [OF d p, of 2 "''Button''" False] 
    by (simp add: g w n r)
  moreover have "map (parent buttons_tk) (children buttons_tk 10) = [Some 10, Some 10, Some 10]"
    by (simp add: buttons_tk_def window_tk_def)
  ultimately show ?thesis using d by (simp add: g)
qed

lemma split_slash_not_empty: "split_slash s \<noteq> []"
  by (induction s) (auto split: list.splits)

lemma split_slash_plain: "CHR ''/'' \<notin> set s \<Longrightarrow> split_slash s = [s]"
  by (induction s) auto

lemma split_slash_segment:
  "CHR ''/'' \<notin> set s \<Longrightarrow> split_slash (s @ CHR ''/'' # rest) = s # split_slash rest"
  by (induction s) auto

lemma split_join:
  "segs \<noteq> [] \<Longrightarrow> \<forall>s \<in> set segs. CHR ''/'' \<notin> set s \<Longrightarrow> split_slash (join_slash segs) = segs"
proof (induction segs rule: join_slash.induct)
  case 1
  then show ?case by simp
next
  case (2 s)
  then show ?case by (simp add: split_slash_plain)
next
  case (3 s t ss)
  then show ?case by (simp add: split_slash_segment)
qed

lemma join_slash_snoc2: "join_slash (xs @ [a @ ''/'' @ b]) = join_slash (xs @ [a, b])"
  by (induction xs rule: join_slash.induct) auto

lemma fold_prepend_join:
  "fold (\<lambda>q n. f q @ ''/'' @ n) ps name = join_slash (map f (rev ps) @ [name])"
proof (induction ps arbitrary: name)
  case Nil
  then show ?case by simp
next
  case (Cons p ps)
  have "fold (\<lambda>q n. f q @ ''/'' @ n) (p # ps) name = join_slash (map f (rev ps) @ [f p @ ''/'' @ name])"
    using Cons.IH [of "f p @ ''/'' @ name"] by simp
  also have "\<dots> = join_slash (map f (rev ps) @ [f p, name])"
    by (rule join_slash_snoc2)
  finally show ?case by simp
qed

lemma join_slash_snoc_not_empty: "s \<noteq> [] \<Longrightarrow> join_slash (xs @ [s]) \<noteq> []"
  by (induction xs rule: join_slash.induct) auto

lemma ancestors_are_parent_None: "ancestors_are tk p ps \<Longrightarrow> (parent tk p = None) = (ps = [])"
  by (cases ps) auto

lemma GetName_loop_chain:
  assumes "ancestors_are tk x ps"
  shows "\<exists>r. GetName_loop tk Object (parent tk x) name = Some r \<and>
           (isl r \<longleftrightarrow> (\<exists>q\<in>set ps. InternalGetName tk q = [])
                      \<or> (ps \<noteq> [] \<and> \<not> registered_top_level tk (last ps))) \<and>
           (\<not> isl r \<longrightarrow> r = Inr (fold (\<lambda>q n. InternalGetName tk q @ ''/'' @ n) ps name))"
  using assms
proof (induction ps arbitrary: x name)
  case Nil
  then show ?case by (subst GetName_loop.simps) simp
next
  case (Cons p ps)
  then have px: "parent tk x = Some p" and anc: "ancestors_are tk p ps" by simp_all
  note root = ancestors_are_parent_None [OF anc]
  show ?case
  proof (cases "InternalGetName tk p = []")
    case True
    then show ?thesis using px by (subst GetName_loop.simps) simp
  next
    case False
    note named = this
    show ?thesis
    proof (cases "parent tk p = None \<and> \<not> registered_top_level tk p")
      case True
      then show ?thesis using px named root
        by (subst GetName_loop.simps) (simp add: registered_top_level_def)
    next
      case False
      from Cons.IH [OF anc, of "InternalGetName tk p @ ''/'' @ name"]
      obtain r where r: "GetName_loop tk Object (parent tk p) (InternalGetName tk p @ ''/'' @ name) = Some r"
        "isl r \<longleftrightarrow> (\<exists>q\<in>set ps. InternalGetName tk q = [])
                      \<or> (ps \<noteq> [] \<and> \<not> registered_top_level tk (last ps))"
        "\<not> isl r \<longrightarrow> r = Inr (fold (\<lambda>q n. InternalGetName tk q @ ''/'' @ n) ps (InternalGetName tk p @ ''/'' @ name))"
        by blast
      have step: "GetName_loop tk Object (parent tk x) name
            = GetName_loop tk Object (parent tk p) (InternalGetName tk p @ ''/'' @ name)"
        using px named False by (subst GetName_loop.simps) (auto simp: registered_top_level_def)
      show ?thesis
        using r named False root unfolding step by auto
    qed
  qed
qed

lemma InternalGetNameAsUnnamed_not_empty: "InternalGetNameAsUnnamed tk x \<noteq> []"
  by (simp add: unnamed_form_aux number_not_empty)

lemma InternalGetName_not_empty: "InternalGetName tk x \<noteq> []"
  by (simp add: InternalGetName_def Let_def replace_slash_def InternalGetNameAsUnnamed_not_empty)

lemma InternalGetNameAsUnnamed_no_slash: "CHR ''/'' \<notin> set (InternalGetNameAsUnnamed tk x)"
  by (simp add: InternalGetNameAsUnnamed_def Let_def replace_slash_no_slash split: prod.splits)

lemma InternalGetName_no_slash: "CHR ''/'' \<notin> set (InternalGetName tk x)"
  by (simp add: InternalGetName_def Let_def replace_slash_no_slash)

lemma GetName_chain:
  assumes "ancestors_are tk x ps"
  shows "\<exists>r. GetName_log tk x = Some r \<and>
     (isl r \<longleftrightarrow> InternalGetName tk x = [] \<or> (\<exists>q\<in>set ps. InternalGetName tk q = [])
                      \<or> (ps \<noteq> [] \<and> \<not> registered_top_level tk (last ps))) \<and>
     (\<not> isl r \<longrightarrow> r = Inr (join_slash (map (InternalGetName tk) (rev ps @ [x]))))"
proof (cases "InternalGetName tk x = []")
  case True
  then show ?thesis by (simp add: GetName_log_def)
next
  case False
  from GetName_loop_chain [OF assms, of x "InternalGetName tk x"]
  show ?thesis unfolding fold_prepend_join using False by (auto simp: GetName_log_def)
qed

section \<open>Composition of full names\<close>

text \<open>
  C5. For an object whose \<open>parent\<close> pointers end after the ancestors \<open>ps\<close>,
  \<open>GetName\<close> returns, and it returns the empty string, with a diagnostic logged, in
  exactly the three cases of \<open>spec_failure\<close>: the object has no derived name, an
  ancestor has none, or the top-most ancestor is not a registered top-level window.
  Otherwise it returns the derived names from the root down to the object, joined with
  \<open>/\<close>, and that string is not empty.
\<close>

theorem GetName_empty_cases:
  assumes "ancestors_are tk x ps"
  shows "GetName tk x =
           Some (if spec_failure tk x ps then []
                 else join_slash (map (InternalGetName tk) (rev ps @ [x])))
         \<and> ((\<exists>d. GetName_log tk x = Some (Inl d)) = spec_failure tk x ps)
         \<and> (\<not> spec_failure tk x ps \<longrightarrow>
              join_slash (map (InternalGetName tk) (rev ps @ [x])) \<noteq> [])"
proof -
  from GetName_chain [OF assms] obtain r where r: "GetName_log tk x = Some r"
    "isl r \<longleftrightarrow> spec_failure tk x ps"
    "\<not> isl r \<longrightarrow> r = Inr (join_slash (map (InternalGetName tk) (rev ps @ [x])))"
    unfolding spec_failure_def by blast
  have ne: "join_slash (map (InternalGetName tk) (rev ps @ [x])) \<noteq> []"
    if "\<not> spec_failure tk x ps"
    using that by (simp add: spec_failure_def join_slash_snoc_not_empty)
  show ?thesis
  proof (cases r)
    case (Inl d)
    then show ?thesis using r ne by (auto simp: GetName_def)
  next
    case (Inr n)
    then show ?thesis using r ne by (auto simp: GetName_def)
  qed
qed

theorem GetName_empty_cases_witness:
  "ancestors_are buttons_tk 12 [10] \<and> \<not> spec_failure buttons_tk 12 [10]
   \<and> GetName buttons_tk 12 = Some ''main/0Button1''
   \<and> ancestors_are orphan_tk 21 [20] \<and> spec_failure orphan_tk 21 [20]
   \<and> GetName orphan_tk 21 = Some []
   \<and> GetName_log orphan_tk 21 = Some (Inl (Not_top_level 21 20 ''0QMainWindow0/leaf''))"
proof -
  have a: "ancestors_are buttons_tk 12 [10]"
    by (simp add: buttons_tk_def window_tk_def)
  have n10: "InternalGetName buttons_tk 10 = ''main''"
    by (simp add: InternalGetName_def buttons_tk_def window_tk_def replace_slash_def)
  have n12: "InternalGetName buttons_tk 12 = ''0Button1''"
    by (simp add: InternalGetName_def InternalGetNameAsUnnamed_def buttons_tk_def window_tk_def
        siblings_of_def number_def digits.simps digit_char_def replace_slash_def)
  have t: "registered_top_level buttons_tk 10"
    by (simp add: registered_top_level_def buttons_tk_def window_tk_def)
  have f: "\<not> spec_failure buttons_tk 12 [10]"
    using t by (simp add: spec_failure_def n10 n12)
  have b: "ancestors_are orphan_tk 21 [20]"
    by (simp add: orphan_tk_def window_tk_def)
  have g: "spec_failure orphan_tk 21 [20]"
    by (simp add: spec_failure_def registered_top_level_def orphan_tk_def window_tk_def)
  have l: "GetName_log orphan_tk 21 = Some (Inl (Not_top_level 21 20 ''0QMainWindow0/leaf''))"
    by (simp add: GetName_log_def GetName_loop.simps InternalGetName_def
        InternalGetNameAsUnnamed_def orphan_tk_def window_tk_def siblings_of_def number_def
        digits.simps digit_char_def replace_slash_def)
  show ?thesis
    using GetName_empty_cases [OF a] GetName_empty_cases [OF b] a b f g l
    by (simp add: n10 n12)
qed

lemma split_GetName:
  assumes "ancestors_are tk x ps" and "GetName tk x = Some name" and "name \<noteq> []"
  shows "split_slash name = map (InternalGetName tk) (rev ps @ [x])"
proof -
  from GetName_chain [OF assms(1)] obtain r where r: "GetName_log tk x = Some r"
    "\<not> isl r \<longrightarrow> r = Inr (join_slash (map (InternalGetName tk) (rev ps @ [x])))"
    by blast
  with assms(2,3) have "name = join_slash (map (InternalGetName tk) (rev ps @ [x]))"
    by (cases r) (auto simp: GetName_def)
  then show ?thesis
    by (simp add: split_join InternalGetName_no_slash)
qed

lemma spec_escape_replace_slash: "spec_escape s = replace_slash s"
  by (induction s) (simp_all add: replace_slash_def)

lemma unnamed_escaped_aux:
  "InternalGetNameAsUnnamed tk x = spec_escape (spec_synthesized tk x)"
proof -
  have "replace_slash (if isWidget tk x then (if isVisible tk x then ''1'' else ''0'') else [])
      = (if isWidget tk x then (if isVisible tk x then ''1'' else ''0'') else [])"
    by (simp add: replace_slash_def)
  then show ?thesis
    by (simp add: unnamed_form_aux spec_synthesized_def spec_escape_replace_slash
        replace_slash_append replace_slash_id [OF number_no_slash])
qed

lemma name_escaped_aux:
  "InternalGetName tk x =
     spec_escape ((if objectName tk x = [] then spec_synthesized tk x else objectName tk x)
                  @ (if isApplication tk x then ''-app'' else []))"
  by (simp add: InternalGetName_def Let_def unnamed_escaped_aux spec_escape_replace_slash
      replace_slash_append replace_slash_idem replace_slash_Nil)

text \<open>
  C6. Every derived name is escaped: the synthesized name is the digit, type tag and
  ordinal with every \<open>/\<close> replaced by \<open>|\<close>, and the name of an object is its
  explicit name, or else its synthesized name, with the application's suffix and with
  every \<open>/\<close> replaced by \<open>|\<close>. So no derived name contains \<open>/\<close>, and a full
  name splits into exactly the derived names of the chain, one segment per object,
  whatever the explicit names contain.
\<close>

theorem slash_escaped:
  "CHR ''/'' \<notin> set (InternalGetNameAsUnnamed tk x) \<and> CHR ''/'' \<notin> set (InternalGetName tk x)
   \<and> (objectName tk x \<noteq> [] \<and> \<not> isApplication tk x \<longrightarrow>
        InternalGetName tk x = replace_slash (objectName tk x))
   \<and> (\<forall>ps name. ancestors_are tk x ps \<and> GetName tk x = Some name \<and> name \<noteq> [] \<longrightarrow>
        split_slash name = map (InternalGetName tk) (rev ps @ [x])
        \<and> length (split_slash name) = Suc (length ps))
   \<and> InternalGetNameAsUnnamed tk x = spec_escape (spec_synthesized tk x)
   \<and> InternalGetName tk x =
       spec_escape ((if objectName tk x = [] then spec_synthesized tk x else objectName tk x)
                    @ (if isApplication tk x then ''-app'' else []))
   \<and> length (InternalGetNameAsUnnamed tk x) = length (spec_synthesized tk x)"
proof -
  have "split_slash name = map (InternalGetName tk) (rev ps @ [x])
        \<and> length (split_slash name) = Suc (length ps)"
    if "ancestors_are tk x ps" "GetName tk x = Some name" "name \<noteq> []" for ps name
    using split_GetName [OF that] by simp
  moreover have "objectName tk x \<noteq> [] \<and> \<not> isApplication tk x \<longrightarrow>
        InternalGetName tk x = replace_slash (objectName tk x)"
    by (simp add: InternalGetName_def)
  moreover have "length (InternalGetNameAsUnnamed tk x) = length (spec_synthesized tk x)"
    by (simp add: unnamed_escaped_aux spec_escape_replace_slash replace_slash_def)
  ultimately show ?thesis
    using InternalGetNameAsUnnamed_no_slash InternalGetName_no_slash
      unnamed_escaped_aux [of tk x] name_escaped_aux [of tk x]
    by blast
qed

theorem slash_escaped_witness:
  "objectName slash_tk 11 = ''a/b'' \<and> InternalGetName slash_tk 11 = ''a|b''
   \<and> ancestors_are slash_tk 11 [10] \<and> GetName slash_tk 11 = Some ''main/a|b''
   \<and> split_slash ''main/a|b'' = [''main'', ''a|b'']
   \<and> className slash_tk 12 = ''Ui/Panel'' \<and> spec_synthesized slash_tk 12 = ''0Ui/Panel0''
   \<and> InternalGetNameAsUnnamed slash_tk 12 = ''0Ui|Panel0''
   \<and> InternalGetName slash_tk 12 = ''0Ui|Panel0''"
proof -
  have o: "objectName slash_tk 11 = ''a/b''" "\<not> isApplication slash_tk 11"
    by (simp_all add: slash_tk_def window_tk_def)
  have a: "ancestors_are slash_tk 11 [10]"
    by (simp add: slash_tk_def window_tk_def)
  have g: "GetName slash_tk 11 = Some ''main/a|b''"
    by (simp add: GetName_def GetName_log_def GetName_loop.simps InternalGetName_def
        slash_tk_def window_tk_def replace_slash_def)
  have n10: "InternalGetName slash_tk 10 = ''main''"
    by (simp add: InternalGetName_def slash_tk_def window_tk_def replace_slash_def)
  note th = slash_escaped [of slash_tk 11]
  have 1: "InternalGetName slash_tk 11 = replace_slash (objectName slash_tk 11)"
    using th [THEN conjunct2, THEN conjunct2, THEN conjunct1] o by simp
  have 2: "split_slash ''main/a|b'' = map (InternalGetName slash_tk) (rev [10] @ [11])"
  proof -
    have "ancestors_are slash_tk 11 [10] \<and> GetName slash_tk 11 = Some ''main/a|b''
        \<and> ''main/a|b'' \<noteq> []"
      using a g by simp
    from th [THEN conjunct2, THEN conjunct2, THEN conjunct2, THEN conjunct1, rule_format,
        OF this]
    show ?thesis by (rule conjunct1)
  qed
  from 1 have n11: "InternalGetName slash_tk 11 = ''a|b''"
    by (simp add: o replace_slash_def)
  have 3: "split_slash ''main/a|b'' = [''main'', ''a|b'']"
    unfolding 2 by (simp add: n10 n11)
  have c: "className slash_tk 12 = ''Ui/Panel''"
    by (simp add: slash_tk_def window_tk_def)
  have p: "objectName slash_tk 12 = []" "\<not> isApplication slash_tk 12"
    by (simp_all add: slash_tk_def window_tk_def)
  have s: "spec_synthesized slash_tk 12 = ''0Ui/Panel0''"
    by (simp add: spec_synthesized_def spec_ordinal_def siblings_of_def visible_widget_def
        slash_tk_def window_tk_def number_def digits.simps digit_char_def)
  note th12 = slash_escaped [of slash_tk 12]
  have u: "InternalGetNameAsUnnamed slash_tk 12 = ''0Ui|Panel0''"
    using th12 [THEN conjunct2, THEN conjunct2, THEN conjunct2, THEN conjunct2, THEN conjunct1]
    by (simp add: s)
  have n: "InternalGetName slash_tk 12 = ''0Ui|Panel0''"
    using th12 [THEN conjunct2, THEN conjunct2, THEN conjunct2, THEN conjunct2, THEN conjunct2,
        THEN conjunct1]
    by (simp add: s p)
  show ?thesis using o a g n11 3 c s u n by blast
qed

section \<open>The stored diagnostic\<close>

text \<open>
  C9. A call of \<open>GetObject\<close> that returns an object leaves \<open>ErrorMessage\<close> as
  it was; when the stored string has changed, the call has failed on a name that is not
  empty and the new string is the diagnostic of that failure.
\<close>

theorem GetObject_success_keeps_message:
  assumes "GetObject tk Name ErrorMessage = Some (result, ErrorMessage')"
  shows "(result \<noteq> None \<longrightarrow> lastErrorMessage ErrorMessage' = lastErrorMessage ErrorMessage)
       \<and> (lastErrorMessage ErrorMessage' \<noteq> lastErrorMessage ErrorMessage \<longrightarrow>
            result = None \<and> Name \<noteq> []
            \<and> (\<exists>lastObject. failure_message tk Name (split_slash Name) lastObject
                  = Some ErrorMessage'))"
  using assms
  by (auto simp: GetObject_def lastErrorMessage_def Let_def
      split: if_splits prod.splits option.splits bind_splits)

theorem GetObject_success_keeps_message_witness:
  "GetObject buttons_tk ''main/0Button1'' ''earlier message'' = Some (Some 12, ''earlier message'')
   \<and> lastErrorMessage ''earlier message'' = ''earlier message''
   \<and> GetObject buttons_tk ''main/nothing'' ''earlier message''
       = Some (None, couldnt_find ''main/nothing'' @ found_up_to ''main'')"
proof -
  have e: "GetObject buttons_tk ''main/0Button1'' ''earlier message''
      = Some (Some 12, ''earlier message'')"
    by (simp add: GetObject_def scan_children.simps buttons_tk_def window_tk_def name_defs)
  have f: "GetObject buttons_tk ''main/nothing'' ''earlier message''
       = Some (None, couldnt_find ''main/nothing'' @ found_up_to ''main'')"
    by (simp add: GetObject_def failure_message_def scan_children.simps GetName_def
        GetName_log_def GetName_loop.simps and_more_def matchLimit_def qgetenv_match_limit_def
        Let_def buttons_tk_def window_tk_def name_defs)
  from GetObject_success_keeps_message [OF e]
  have "lastErrorMessage ''earlier message'' = lastErrorMessage ''earlier message''"
    by simp
  then show ?thesis using e f by (simp add: lastErrorMessage_def)
qed

section \<open>The candidate list of the diagnostic\<close>













section \<open>The scan of the children and its second pass\<close>

text \<open>
  The first pass of the scan returns the first child that matches the segment. When no
  child matches and the segment starts with \<open>0\<close>, the second pass looks for the
  segment with a leading \<open>1\<close> among the children from the second one on; a segment
  that does not start with \<open>0\<close> gets no second pass.
\<close>

lemma scan_children_first_pass:
  "find (segment_matches tk seg) (drop k cs) = Some c \<Longrightarrow> scan_children tk cs k seg = Some c"
proof (induction tk cs k seg rule: scan_children.induct)
  case (1 tk cs k seg)
  show ?case
  proof (cases "length cs \<le> k")
    case True
    with "1.prems" show ?thesis by simp
  next
    case False
    then have d: "drop k cs = cs ! k # drop (Suc k) cs"
      by (simp add: Cons_nth_drop_Suc)
    show ?thesis
    proof (cases "segment_matches tk seg (cs ! k)")
      case True
      with "1.prems" d have "c = cs ! k" by simp
      with True False show ?thesis
        by (subst scan_children.simps) (simp add: segment_matches_def)
    next
      case False
      note nomatch = this
      with "1.prems" d have f: "find (segment_matches tk seg) (drop (Suc k) cs) = Some c"
        by simp
      then have "drop (Suc k) cs \<noteq> []" by auto
      then have notlast: "k \<noteq> length cs - 1" by auto
      have nm: "\<not> (InternalGetName tk (cs ! k) = seg \<or> InternalGetNameAsUnnamed tk (cs ! k) = seg)"
        using nomatch by (simp add: segment_matches_def)
      have "scan_children tk cs (Suc k) seg = Some c"
        by (rule "1.IH"(2)) (use \<open>\<not> length cs \<le> k\<close> nm notlast f in auto)
      then show ?thesis
        using \<open>\<not> length cs \<le> k\<close> nm notlast
        by (subst scan_children.simps) simp
    qed
  qed
qed


lemma scan_children_no_retry:
  "\<not> (seg \<noteq> [] \<and> hd seg = CHR ''0'') \<Longrightarrow>
   scan_children tk cs k seg = find (segment_matches tk seg) (drop k cs)"
proof (induction tk cs k seg rule: scan_children.induct)
  case (1 tk cs k seg)
  show ?case
  proof (cases "length cs \<le> k")
    case True
    then show ?thesis by (subst scan_children.simps) simp
  next
    case False
    then have d: "drop k cs = cs ! k # drop (Suc k) cs"
      by (simp add: Cons_nth_drop_Suc)
    show ?thesis
    proof (cases "InternalGetName tk (cs ! k) = seg \<or> InternalGetNameAsUnnamed tk (cs ! k) = seg")
      case True
      with False show ?thesis
        unfolding d by (subst scan_children.simps) (simp add: segment_matches_def)
    next
      case nm: False
      have "scan_children tk cs (Suc k) seg = find (segment_matches tk seg) (drop (Suc k) cs)"
        by (rule "1.IH"(2)) (use False nm "1.prems" in auto)
      then show ?thesis
        using False nm "1.prems"
        unfolding d by (subst scan_children.simps) (auto simp: segment_matches_def)
    qed
  qed
qed

lemma scan_children_second_pass:
  "find (segment_matches tk seg) (drop k cs) = None \<Longrightarrow> k < length cs \<Longrightarrow>
   seg \<noteq> [] \<Longrightarrow> hd seg = CHR ''0'' \<Longrightarrow>
   scan_children tk cs k seg = find (segment_matches tk (CHR ''1'' # tl seg)) (tl cs)"
proof (induction tk cs k seg rule: scan_children.induct)
  case (1 tk cs k seg)
  from "1.prems"(2) have d: "drop k cs = cs ! k # drop (Suc k) cs"
    by (simp add: Cons_nth_drop_Suc)
  from "1.prems"(1) have nm': "\<not> segment_matches tk seg (cs ! k)"
    and rest: "find (segment_matches tk seg) (drop (Suc k) cs) = None"
    unfolding d by (auto split: if_splits)
  from nm' have nm:
    "\<not> (InternalGetName tk (cs ! k) = seg \<or> InternalGetNameAsUnnamed tk (cs ! k) = seg)"
    by (simp add: segment_matches_def)
  show ?case
  proof (cases "k = length cs - 1")
    case True
    have "scan_children tk cs (Suc 0) (CHR ''1'' # tl seg)
        = find (segment_matches tk (CHR ''1'' # tl seg)) (drop (Suc 0) cs)"
      by (rule scan_children_no_retry) simp
    then show ?thesis
      using True nm "1.prems"
      by (subst scan_children.simps) (simp add: drop_Suc)
  next
    case False
    have "scan_children tk cs (Suc k) seg = find (segment_matches tk (CHR ''1'' # tl seg)) (tl cs)"
      by (rule "1.IH"(2)) (use False nm rest "1.prems" in auto)
    then show ?thesis
      using False nm "1.prems"
      by (subst scan_children.simps) simp
  qed
qed


text \<open>
  C3. The fallback from a leading \<open>0\<close> to a leading \<open>1\<close>, evaluated. The
  window's only child is named \<open>1QWidget0\<close>, and resolving \<open>main/0QWidget0\<close>
  fails: the second pass starts after the first child. When the same widget is the second
  child, the second pass finds it.
\<close>

theorem retry_skips_first_child:
  "InternalGetName only_child_tk 11 = ''1QWidget0''
   \<and> scan_children only_child_tk (children only_child_tk 10) 0 ''0QWidget0'' = None
   \<and> GetObject only_child_tk ''main/0QWidget0'' []
       = Some (None, couldnt_find ''main/0QWidget0'' @ found_up_to ''main'')
   \<and> InternalGetName second_child_tk 12 = ''1QWidget0''
   \<and> GetObject second_child_tk ''main/0QWidget0'' [] = Some (Some 12, [])"
proof -
  have 1: "InternalGetName only_child_tk 11 = ''1QWidget0''"
    by (simp add: only_child_tk_def window_tk_def name_defs)
  have 2: "scan_children only_child_tk (children only_child_tk 10) 0 ''0QWidget0'' = None"
    by (simp add: scan_children.simps only_child_tk_def window_tk_def name_defs)
  have 3: "GetObject only_child_tk ''main/0QWidget0'' []
       = Some (None, couldnt_find ''main/0QWidget0'' @ found_up_to ''main'')"
    by (simp add: GetObject_def failure_message_def scan_children.simps GetName_def
        GetName_log_def GetName_loop.simps and_more_def matchLimit_def qgetenv_match_limit_def
        Let_def only_child_tk_def window_tk_def name_defs)
  have 4: "InternalGetName second_child_tk 12 = ''1QWidget0''"
    by (simp add: second_child_tk_def window_tk_def name_defs)
  have 5: "GetObject second_child_tk ''main/0QWidget0'' [] = Some (Some 12, [])"
    by (simp add: GetObject_def scan_children.simps second_child_tk_def window_tk_def name_defs)
  show ?thesis using 1 2 3 4 5 by blast
qed

section \<open>The traversal of the hierarchy dump\<close>

lemma map_Some_append:
  "map f (xs @ ys) = map Some ns \<Longrightarrow>
   \<exists>ns1 ns2. ns = ns1 @ ns2 \<and> map f xs = map Some ns1 \<and> map f ys = map Some ns2"
  by (auto simp: append_eq_map_conv)

lemma DumpHierarchy_Each_Nil: "DumpHierarchy_run tk (Each []) results = Some results"
  by (subst DumpHierarchy_run.simps) simp

lemma DumpHierarchy_Each_Cons:
  "DumpHierarchy_run tk (Each (x # xs)) results =
     DumpHierarchy_run tk (Visit x) results \<bind> DumpHierarchy_run tk (Each xs)"
  by (subst DumpHierarchy_run.simps) simp

lemma DumpHierarchy_Visit:
  "DumpHierarchy_run tk (Visit x) results =
     GetName tk x \<bind> (\<lambda>name. DumpHierarchy_run tk (Each (children tk x)) (results @ [name]))"
  by (subst DumpHierarchy_run.simps) simp

lemma DumpHierarchy_each:
  assumes visit: "\<And>t ns results. t \<in> set ts \<Longrightarrow> shaped tk t \<Longrightarrow>
      map (GetName tk) (preorder t) = map Some ns \<Longrightarrow>
      DumpHierarchy_run tk (Visit (root t)) results = Some (results @ ns)"
    and "\<forall>t \<in> set ts. shaped tk t"
    and "map (GetName tk) (concat (map preorder ts)) = map Some ns"
  shows "DumpHierarchy_run tk (Each (map root ts)) results = Some (results @ ns)"
  using assms
proof (induction ts arbitrary: ns results)
  case Nil
  then show ?case by (simp add: DumpHierarchy_Each_Nil)
next
  case (Cons t ts)
  from Cons.prems(3) obtain ns1 ns2 where ns: "ns = ns1 @ ns2"
    and 1: "map (GetName tk) (preorder t) = map Some ns1"
    and 2: "map (GetName tk) (concat (map preorder ts)) = map Some ns2"
    using map_Some_append [of "GetName tk" "preorder t" "concat (map preorder ts)" ns] by auto
  have v: "DumpHierarchy_run tk (Visit (root t)) results = Some (results @ ns1)"
    using Cons.prems(1) [of t ns1 results] Cons.prems(2) 1 by simp
  have e: "DumpHierarchy_run tk (Each (map root ts)) (results @ ns1) = Some ((results @ ns1) @ ns2)"
    using Cons.IH [of ns2 "results @ ns1"] Cons.prems(1,2) 2 by simp
  show ?case
    by (simp add: DumpHierarchy_Each_Cons v e ns)
qed

lemma DumpHierarchy_visit:
  "shaped tk t \<Longrightarrow> map (GetName tk) (preorder t) = map Some ns \<Longrightarrow>
   DumpHierarchy_run tk (Visit (root t)) results = Some (results @ ns)"
proof (induction t arbitrary: ns results)
  case (Node x ts)
  from Node.prems(2) obtain n ns' where ns: "ns = n # ns'" and n: "GetName tk x = Some n"
    and rest: "map (GetName tk) (concat (map preorder ts)) = map Some ns'"
    by (cases ns) auto
  from Node.prems(1) have ch: "map root ts = children tk x" and sh: "\<forall>t \<in> set ts. shaped tk t"
    by simp_all
  have "DumpHierarchy_run tk (Each (map root ts)) (results @ [n]) = Some ((results @ [n]) @ ns')"
    by (rule DumpHierarchy_each [OF _ sh rest]) (rule Node.IH)
  then show ?case
    by (simp add: DumpHierarchy_Visit n ch ns)
qed

lemma DumpHierarchy_names:
  assumes "map root ts = topLevelWidgets tk" and "\<forall>t \<in> set ts. shaped tk t"
    and "map (GetName tk) (concat (map preorder ts)) = map Some ns"
  shows "DumpHierarchy tk results = Some (results @ ns)"
  using DumpHierarchy_each [OF DumpHierarchy_visit assms(2,3), of results]
  by (simp add: DumpHierarchy_def assms(1))

lemma GetName_returns:
  assumes "\<forall>x \<in> set xs. \<exists>ps. ancestors_are tk x ps"
  shows "\<exists>ns. map (GetName tk) xs = map Some ns"
  using assms
proof (induction xs)
  case Nil
  then show ?case by simp
next
  case (Cons x xs)
  then obtain ns where ns: "map (GetName tk) xs = map Some ns" by auto
  from Cons.prems obtain ps where "ancestors_are tk x ps" by auto
  from GetName_chain [OF this] obtain r where "GetName_log tk x = Some r" by blast
  then obtain n where "GetName tk x = Some n" by (simp add: GetName_def)
  with ns have "map (GetName tk) (x # xs) = map Some (n # ns)" by simp
  then show ?case by blast
qed

text \<open>
  C7. When the trees \<open>ts\<close> are the top-level widgets with all their descendants, and
  every object in them has a finite chain of parents, \<open>DumpHierarchy\<close> returns and
  appends the full names of all these objects in pre-order: each object before its
  children, the children in sibling order, nothing left out. A window with two children
  gives three names, the window's first.
\<close>

theorem DumpHierarchy_preorder:
  assumes "map root ts = topLevelWidgets tk" and "\<forall>t \<in> set ts. shaped tk t"
    and "\<forall>x \<in> set (concat (map preorder ts)). \<exists>ps. ancestors_are tk x ps"
  shows "\<exists>names. DumpHierarchy tk results = Some (results @ names)
           \<and> map (GetName tk) (concat (map preorder ts)) = map Some names"
proof -
  from GetName_returns [OF assms(3)] obtain ns
    where ns: "map (GetName tk) (concat (map preorder ts)) = map Some ns" by blast
  from DumpHierarchy_names [OF assms(1,2) ns] ns show ?thesis by blast
qed


theorem DumpHierarchy_preorder_witness:
  "map root [Node 10 [Node 11 [], Node 12 []]] = topLevelWidgets pair_tk
   \<and> shaped pair_tk (Node 10 [Node 11 [], Node 12 []])
   \<and> ancestors_are pair_tk 10 [] \<and> ancestors_are pair_tk 11 [10] \<and> ancestors_are pair_tk 12 [10]
   \<and> DumpHierarchy pair_tk [] = Some [''main'', ''main/left'', ''main/right'']"
proof -
  let ?ts = "[Node 10 [Node 11 [], Node 12 []]]"
  have r: "map root ?ts = topLevelWidgets pair_tk"
    by (simp add: pair_tk_def window_tk_def)
  have s: "shaped pair_tk (Node 10 [Node 11 [], Node 12 []])"
    by (simp add: pair_tk_def window_tk_def)
  have a: "ancestors_are pair_tk 10 []" "ancestors_are pair_tk 11 [10]"
    "ancestors_are pair_tk 12 [10]"
    by (simp_all add: pair_tk_def window_tk_def)
  have s': "\<forall>t \<in> set ?ts. shaped pair_tk t" using s by simp
  have "\<exists>ps. ancestors_are pair_tk 10 ps" "\<exists>ps. ancestors_are pair_tk 11 ps"
    "\<exists>ps. ancestors_are pair_tk 12 ps"
    using a by blast+
  then have a': "\<forall>x \<in> set (concat (map preorder ?ts)). \<exists>ps. ancestors_are pair_tk x ps"
    by simp
  have g: "map (GetName pair_tk) (concat (map preorder ?ts))
      = map Some [''main'', ''main/left'', ''main/right'']"
    by (simp add: GetName_def GetName_log_def GetName_loop.simps pair_tk_def window_tk_def
        name_defs)
  from DumpHierarchy_preorder [OF r s' a', of "[]"] obtain names
    where d: "DumpHierarchy pair_tk [] = Some ([] @ names)"
      and n: "map (GetName pair_tk) (concat (map preorder ?ts)) = map Some names"
    by blast
  from n g have "map Some names = map Some [''main'', ''main/left'', ''main/right'']"
    by simp
  then have "names = [''main'', ''main/left'', ''main/right'']"
    by (simp add: map_eq_Cons_conv)
  with d r s a show ?thesis by simp
qed

section \<open>The round trip from an object to its name and back\<close>

lemma find_top_level_find: "find_top_level tk seg ws = find (segment_matches tk seg) ws"
  by (induction ws) (auto simp: segment_matches_def)

lemma resolve_segments_first_matches:
  "first_matches tk r rest \<Longrightarrow>
   fst (resolve_segments tk (map (InternalGetName tk) rest) (Some r, l)) = Some (last (r # rest))"
proof (induction rest arbitrary: r l)
  case Nil
  then show ?case by simp
next
  case (Cons c cs)
  then have f: "find (segment_matches tk (InternalGetName tk c)) (drop 0 (children tk r)) = Some c"
    and m: "first_matches tk c cs"
    by simp_all
  have "scan_children tk (children tk r) 0 (InternalGetName tk c) = Some c"
    using f by (rule scan_children_first_pass)
  then show ?case
    using Cons.IH [OF m, of "Some c"] by simp
qed

lemma join_slash_has_slash:
  "2 \<le> length segs \<Longrightarrow> CHR ''/'' \<in> set (join_slash segs)"
  by (induction segs rule: join_slash.induct) auto

lemma GetName_joined:
  assumes "ancestors_are tk x ps" and "ps \<noteq> [] \<longrightarrow> registered_top_level tk (last ps)"
  shows "GetName tk x = Some (join_slash (map (InternalGetName tk) (rev ps @ [x])))"
proof -
  from GetName_chain [OF assms(1)] obtain r where r: "GetName_log tk x = Some r"
    "isl r \<longleftrightarrow> InternalGetName tk x = [] \<or> (\<exists>q\<in>set ps. InternalGetName tk q = [])
                      \<or> (ps \<noteq> [] \<and> \<not> registered_top_level tk (last ps))"
    "\<not> isl r \<longrightarrow> r = Inr (join_slash (map (InternalGetName tk) (rev ps @ [x])))"
    by blast
  from r(2) assms(2) have "\<not> isl r" by (auto simp: InternalGetName_not_empty)
  with r show ?thesis by (simp add: GetName_def)
qed

lemma GetObject_of_path:
  assumes "path = r # rest"
    and "find (segment_matches tk (InternalGetName tk r)) (topLevelWidgets tk) = Some r"
    and "first_matches tk r rest"
    and "rest = [] \<longrightarrow> InternalGetName tk (app_instance tk) \<noteq> InternalGetName tk r"
  shows "GetObject tk (join_slash (map (InternalGetName tk) path)) ErrorMessage
           = Some (Some (last path), ErrorMessage)"
proof -
  let ?N = "InternalGetName tk"
  let ?name = "join_slash (map ?N path)"
  have ne: "?name \<noteq> []"
    using join_slash_snoc_not_empty [of "?N (last path)" "map ?N (butlast path)"]
      InternalGetName_not_empty [of tk "last path"] assms(1)
    by (metis append_butlast_last_id list.distinct(1) list.map_disc_iff map_append list.simps(8,9))
  have app: "?N (app_instance tk) \<noteq> ?name"
  proof (cases "rest = []")
    case True
    with assms(1,4) show ?thesis by simp
  next
    case False
    then have "2 \<le> length (map ?N path)" using assms(1) by (cases rest) auto
    then have "CHR ''/'' \<in> set ?name" by (rule join_slash_has_slash)
    then show ?thesis using InternalGetName_no_slash [of tk "app_instance tk"] by auto
  qed
  have sp: "split_slash ?name = ?N r # map ?N rest"
    using split_join [of "map ?N path"] assms(1) by (auto simp: InternalGetName_no_slash)
  have top: "find_top_level tk (?N r) (topLevelWidgets tk) = Some r"
    by (simp add: find_top_level_find assms(2))
  obtain l where rs: "resolve_segments tk (map ?N rest) (Some r, Some r) = (Some (last path), l)"
    using resolve_segments_first_matches [OF assms(3), of "Some r"] assms(1)
    by (cases "resolve_segments tk (map ?N rest) (Some r, Some r)") auto
  define name where "name = ?name"
  have "GetObject tk name ErrorMessage = Some (Some (last path), ErrorMessage)"
    using ne app sp unfolding name_def [symmetric]
    by (simp add: GetObject_def top rs)
  then show ?thesis by (simp add: name_def)
qed

text \<open>
  C1. Round trip: for an object with a finite chain of parents whose chain
  resolves by first matches (\<open>chain_resolves\<close>), and for the application object
  without parent, \<open>GetName\<close> returns a name that is not empty and \<open>GetObject\<close>
  on that name, in the same tree, returns the object itself and leaves the stored
  diagnostic alone.
\<close>

theorem round_trip_first_match:
  assumes "ancestors_are tk x ps"
    and "chain_resolves tk x ps \<or> (x = app_instance tk \<and> ps = [])"
  shows "\<exists>name. GetName tk x = Some name \<and> name \<noteq> []
           \<and> GetObject tk name ErrorMessage = Some (Some x, ErrorMessage)"
proof -
  let ?N = "InternalGetName tk"
  let ?name = "join_slash (map ?N (rev ps @ [x]))"
  have ne: "?name \<noteq> []"
    using join_slash_snoc_not_empty [of "?N x" "map ?N (rev ps)"] InternalGetName_not_empty
    by simp
  from assms(2) show ?thesis
  proof
    assume cr: "chain_resolves tk x ps"
    obtain r rest where p: "rev ps @ [x] = r # rest" by (cases "rev ps @ [x]") auto
    with cr have top: "registered_top_level tk r"
      and f: "find (segment_matches tk (?N r)) (topLevelWidgets tk) = Some r"
      and m: "first_matches tk r rest"
      and a: "rest = [] \<longrightarrow> ?N (app_instance tk) \<noteq> ?N r"
      by (auto simp: chain_resolves_def)
    have "ps \<noteq> [] \<longrightarrow> last ps = r"
      using p by (cases ps rule: rev_cases) auto
    with top have "ps \<noteq> [] \<longrightarrow> registered_top_level tk (last ps)" by auto
    from GetName_joined [OF assms(1) this] have g: "GetName tk x = Some ?name" .
    have "GetObject tk ?name ErrorMessage = Some (Some (last (rev ps @ [x])), ErrorMessage)"
      by (rule GetObject_of_path [OF p f m a])
    with g ne show ?thesis by simp
  next
    assume "x = app_instance tk \<and> ps = []"
    then have x: "x = app_instance tk" and ps: "ps = []" by simp_all
    from GetName_joined [OF assms(1)] ps have g: "GetName tk x = Some (?N x)" by simp
    have "GetObject tk (?N x) ErrorMessage = Some (Some x, ErrorMessage)"
      using InternalGetName_not_empty [of tk x] by (simp add: GetObject_def x)
    with g InternalGetName_not_empty [of tk x] show ?thesis by simp
  qed
qed


theorem round_trip_first_match_witness:
  "ancestors_are buttons_tk 12 [10] \<and> chain_resolves buttons_tk 12 [10]
   \<and> GetName buttons_tk 12 = Some ''main/0Button1''
   \<and> GetObject buttons_tk ''main/0Button1'' [] = Some (Some 12, [])"
proof -
  have a: "ancestors_are buttons_tk 12 [10]"
    by (simp add: buttons_tk_def window_tk_def)
  have c: "chain_resolves buttons_tk 12 [10]"
    by (simp add: chain_resolves_def registered_top_level_def segment_matches_def
        buttons_tk_def window_tk_def name_defs)
  have g: "GetName buttons_tk 12 = Some ''main/0Button1''"
    by (simp add: GetName_def GetName_log_def GetName_loop.simps buttons_tk_def window_tk_def
        name_defs)
  from round_trip_first_match [OF a, of "[]"] c obtain name
    where "GetName buttons_tk 12 = Some name"
      and "GetObject buttons_tk name [] = Some (Some 12, [])"
    by blast
  with g have "GetObject buttons_tk ''main/0Button1'' [] = Some (Some 12, [])" by simp
  with a c g show ?thesis by blast
qed

text \<open>
  Without the first-match condition the round trip fails: the two children named
  \<open>btn\<close> have the same full name, and the name resolves to the first of them, although
  their parent resolves to itself.
\<close>

theorem round_trip_twins_counterexample:
  "ancestors_are twins_tk 12 [10]
   \<and> GetName twins_tk 10 = Some ''main'' \<and> GetObject twins_tk ''main'' [] = Some (Some 10, [])
   \<and> GetName twins_tk 12 = Some ''main/btn''
   \<and> GetObject twins_tk ''main/btn'' [] = Some (Some 11, [])
   \<and> GetObject twins_tk ''main/btn'' [] \<noteq> Some (Some 12, [])"
proof -
  have a: "ancestors_are twins_tk 12 [10]"
    by (simp add: twins_tk_def window_tk_def)
  have 1: "GetName twins_tk 10 = Some ''main''"
    by (simp add: GetName_def GetName_log_def GetName_loop.simps twins_tk_def window_tk_def
        name_defs)
  have 2: "GetObject twins_tk ''main'' [] = Some (Some 10, [])"
    by (simp add: GetObject_def scan_children.simps twins_tk_def window_tk_def name_defs)
  have 3: "GetName twins_tk 12 = Some ''main/btn''"
    by (simp add: GetName_def GetName_log_def GetName_loop.simps twins_tk_def window_tk_def
        name_defs)
  have 4: "GetObject twins_tk ''main/btn'' [] = Some (Some 11, [])"
    by (simp add: GetObject_def scan_children.simps twins_tk_def window_tk_def name_defs)
  from 4 have 5: "GetObject twins_tk ''main/btn'' [] \<noteq> Some (Some 12, [])" by simp
  from a 1 2 3 4 5 show ?thesis by blast
qed

end
